theory Spec2Isabelle
  imports Main "HOL-Library.Word"
begin

section \<open>Shard-per-core network device: net.hh\<close>

text \<open>
  A shallow embedding of \<^verbatim>\<open>src/net/net.hh\<close>: the classes \<^verbatim>\<open>forward_hash\<close>,
  \<^verbatim>\<open>qp\<close> and \<^verbatim>\<open>device\<close>. Unsigned machine integers are words of their width;
  container sizes (\<^verbatim>\<open>size_t\<close> values bounded by what memory holds) are \<open>nat\<close>.
  A failed \<^verbatim>\<open>assert\<close> and every place where C++ leaves the behaviour undefined is
  a value of type \<open>error\<close>, returned on the left of a sum.
\<close>

type_synonym u8 = "8 word"
type_synonym u16 = "16 word"
type_synonym u32 = "32 word"
type_synonym u64 = "64 word"

datatype error =
    Assertion_failed    \<comment> \<open>\<^verbatim>\<open>assert(...)\<close> aborts the process\<close>
  | Null_queue          \<comment> \<open>dereference of an empty \<^verbatim>\<open>qp*\<close> slot\<close>
  | Out_of_bounds       \<comment> \<open>array access past the end\<close>
  | Division_by_zero    \<comment> \<open>\<^verbatim>\<open>%\<close> with a zero divisor\<close>
  | Shift_too_wide      \<comment> \<open>\<^verbatim>\<open>>>\<close> of a 32-bit value by 32 or more\<close>

subsection \<open>forward\_hash\<close>

text \<open>
  \<^verbatim>\<open>uint8_t data[64]; size_t end_idx = 0;\<close> The array is a function from the cell
  index to the byte stored there; only indices below 64 exist, and every access checks
  that. The constructor leaves \<^verbatim>\<open>data\<close> uninitialised, so the initial contents are
  a parameter.
\<close>

record forward_hash =
  data :: "nat \<Rightarrow> u8"
  end_idx :: nat

definition data_size :: nat where
  "data_size = 64"

definition forward_hash_new :: "(nat \<Rightarrow> u8) \<Rightarrow> forward_hash" where
  "forward_hash_new garbage = \<lparr>data = garbage, end_idx = 0\<rparr>"

definition size_fh :: "forward_hash \<Rightarrow> nat" where
  "size_fh fh = end_idx fh"

text \<open>\<^verbatim>\<open>void push_back(uint8_t b) { assert(end_idx < sizeof(data)); data[end_idx++] = b; }\<close>\<close>

definition push_back_u8 :: "forward_hash \<Rightarrow> u8 \<Rightarrow> error + forward_hash" where
  "push_back_u8 fh b =
     (if end_idx fh < data_size
      then Inr (fh\<lparr>data := (data fh)(end_idx fh := b), end_idx := end_idx fh + 1\<rparr>)
      else Inl Assertion_failed)"

text \<open>\<^verbatim>\<open>void push_back(uint16_t b) { push_back(uint8_t(b)); push_back(uint8_t(b >> 8)); }\<close>\<close>

definition push_back_u16 :: "forward_hash \<Rightarrow> u16 \<Rightarrow> error + forward_hash" where
  "push_back_u16 fh b =
     (case push_back_u8 fh (ucast b) of
        Inl e \<Rightarrow> Inl e
      | Inr fh1 \<Rightarrow> push_back_u8 fh1 (ucast (drop_bit 8 b)))"

text \<open>\<^verbatim>\<open>void push_back(uint32_t b) { push_back(uint16_t(b)); push_back(uint16_t(b >> 16)); }\<close>\<close>

definition push_back_u32 :: "forward_hash \<Rightarrow> u32 \<Rightarrow> error + forward_hash" where
  "push_back_u32 fh b =
     (case push_back_u16 fh (ucast b) of
        Inl e \<Rightarrow> Inl e
      | Inr fh1 \<Rightarrow> push_back_u16 fh1 (ucast (drop_bit 16 b)))"

text \<open>
  \<^verbatim>\<open>const uint8_t& operator[](size_t idx) const { return data[idx]; }\<close>
  Reading past the array is undefined in C++; the model reports it.
\<close>

definition index_fh :: "forward_hash \<Rightarrow> nat \<Rightarrow> error + u8" where
  "index_fh fh idx = (if idx < data_size then Inr (data fh idx) else Inl Out_of_bounds)"

text \<open>A call of one of the three overloads, and a sequence of such calls.\<close>

datatype push = Push8 u8 | Push16 u16 | Push32 u32

fun push_back :: "forward_hash \<Rightarrow> push \<Rightarrow> error + forward_hash" where
  "push_back fh (Push8 b) = push_back_u8 fh b"
| "push_back fh (Push16 b) = push_back_u16 fh b"
| "push_back fh (Push32 b) = push_back_u32 fh b"

fun push_back_all :: "forward_hash \<Rightarrow> push list \<Rightarrow> error + forward_hash" where
  "push_back_all fh [] = Inr fh"
| "push_back_all fh (p # ps) =
     (case push_back fh p of Inl e \<Rightarrow> Inl e | Inr fh1 \<Rightarrow> push_back_all fh1 ps)"

text \<open>
  The specification's reading of a push: the little-endian decomposition of the value,
  least significant byte first. Byte \<open>k\<close> of \<open>x\<close> is bits \<open>8k .. 8k+7\<close>.
\<close>

definition le_byte :: "'a::len word \<Rightarrow> nat \<Rightarrow> u8" where
  "le_byte x k = ucast (drop_bit (8 * k) x)"

fun spec_bytes :: "push \<Rightarrow> u8 list" where
  "spec_bytes (Push8 b) = [b]"
| "spec_bytes (Push16 b) = [le_byte b 0, le_byte b 1]"
| "spec_bytes (Push32 b) = [le_byte b 0, le_byte b 1, le_byte b 2, le_byte b 3]"

definition spec_bytes_all :: "push list \<Rightarrow> u8 list" where
  "spec_bytes_all ps = concat (map spec_bytes ps)"

text \<open>Writing a list of bytes into the array from a position on.\<close>

fun store_bytes :: "(nat \<Rightarrow> u8) \<Rightarrow> nat \<Rightarrow> u8 list \<Rightarrow> (nat \<Rightarrow> u8)" where
  "store_bytes d i [] = d"
| "store_bytes d i (b # bs) = store_bytes (d(i := b)) (Suc i) bs"

definition push_width :: "push \<Rightarrow> nat" where
  "push_width p = (case p of Push8 _ \<Rightarrow> 1 | Push16 _ \<Rightarrow> 2 | Push32 _ \<Rightarrow> 4)"

subsection \<open>qp\<close>

text \<open>
  A packet is opaque to this layer: the type variable \<open>'p\<close>. Everything outside the
  queue pair that a provider callback or the backend's \<^verbatim>\<open>send\<close> reads and changes
  (the upper layers' queues, the NIC rings) is one value of type \<open>'w\<close>.
  \<^verbatim>\<open>circular_buffer<packet>\<close> is a FIFO: a list, \<^verbatim>\<open>push_back\<close> appends,
  \<^verbatim>\<open>front\<close> and \<^verbatim>\<open>pop_front\<close> take the head. The members \<^verbatim>\<open>_rx_stream\<close>,
  \<^verbatim>\<open>_tx_poller\<close> and \<^verbatim>\<open>_collectd_regs\<close> belong to the scheduler and the metrics
  facility and are left out.

  A registered provider is a \<^verbatim>\<open>std::function<optional<packet> ()>\<close>: either the
  lambda of \<^verbatim>\<open>add_proxy\<close>, which captures \<^verbatim>\<open>this\<close> and drains
  \<^verbatim>\<open>_proxy_packetq\<close>, or a callback of an upper layer, which acts on the outside state.
\<close>

datatype ('p, 'w) provider =
    Proxy_drain
  | Upper "'w \<Rightarrow> 'p option \<times> 'w"

record ('p, 'w) qp =
  pkt_providers :: "('p, 'w) provider list"
  proxies :: "u32 list"
  proxy_packetq :: "'p list"
  tx_packetq :: "'p list"
  packets_snt :: u64
  packets_rcv :: u64
  last_tx_bunch :: u64
  last_rx_bunch :: u64

definition qp_new :: "('p, 'w) qp" where
  "qp_new = \<lparr>pkt_providers = [], proxies = [], proxy_packetq = [], tx_packetq = [],
             packets_snt = 0, packets_rcv = 0, last_tx_bunch = 0, last_rx_bunch = 0\<rparr>"

text \<open>\<^verbatim>\<open>void update_rx_count(uint64_t count) { _last_rx_bunch = count; _packets_rcv += count; }\<close>\<close>

definition update_rx_count :: "('p, 'w) qp \<Rightarrow> u64 \<Rightarrow> ('p, 'w) qp" where
  "update_rx_count q count = q\<lparr>last_rx_bunch := count, packets_rcv := packets_rcv q + count\<rparr>"

definition may_forward :: "('p, 'w) qp \<Rightarrow> bool" where
  "may_forward q = (proxies q \<noteq> [])"

definition register_packet_provider :: "('p, 'w) qp \<Rightarrow> ('p, 'w) provider \<Rightarrow> ('p, 'w) qp" where
  "register_packet_provider q func = q\<lparr>pkt_providers := pkt_providers q @ [func]\<rparr>"

text \<open>
  \<^verbatim>\<open>void add_proxy(unsigned cpu) {
      if (proxies.empty()) { register_packet_provider([this] { ... }); }
      proxies.push_back(cpu); }\<close>
\<close>

definition add_proxy :: "('p, 'w) qp \<Rightarrow> u32 \<Rightarrow> ('p, 'w) qp" where
  "add_proxy q cpu =
     (let q1 = (if proxies q = [] then register_packet_provider q Proxy_drain else q)
      in q1\<lparr>proxies := proxies q1 @ [cpu]\<rparr>)"

definition proxy_send :: "('p, 'w) qp \<Rightarrow> 'p \<Rightarrow> ('p, 'w) qp" where
  "proxy_send q p = q\<lparr>proxy_packetq := proxy_packetq q @ [p]\<rparr>"

text \<open>
  The body of the lambda registered by \<^verbatim>\<open>add_proxy\<close>:
  \<^verbatim>\<open>optional<packet> p;
  if (!_proxy_packetq.empty()) { p = std::move(_proxy_packetq.front()); _proxy_packetq.pop_front(); }
  return p;\<close>
\<close>

definition proxy_provider :: "('p, 'w) qp \<Rightarrow> 'p option \<times> ('p, 'w) qp" where
  "proxy_provider q =
     (case proxy_packetq q of
        [] \<Rightarrow> (None, q)
      | p # rest \<Rightarrow> (Some p, q\<lparr>proxy_packetq := rest\<rparr>))"

text \<open>One invocation \<^verbatim>\<open>pr()\<close> of a registered provider.\<close>

fun call_provider ::
  "('p, 'w) provider \<Rightarrow> ('p, 'w) qp \<times> 'w \<Rightarrow> 'p option \<times> (('p, 'w) qp \<times> 'w)" where
  "call_provider Proxy_drain (q, w) = (case proxy_provider q of (r, q1) \<Rightarrow> (r, (q1, w)))"
| "call_provider (Upper f) (q, w) = (case f w of (r, w1) \<Rightarrow> (r, (q, w1)))"

text \<open>
  The inner loop of \<^verbatim>\<open>poll_tx\<close>, over the providers still to be asked in this pass:
  \<^verbatim>\<open>for (auto&& pr : _pkt_providers) {
      auto p = pr();
      if (p) { work++; _tx_packetq.push_back(std::move(p.value()));
               if (_tx_packetq.size() == 128) { break; } } }\<close>
  \<^verbatim>\<open>work\<close> is a \<^verbatim>\<open>uint32_t\<close>.
\<close>

fun refill_pass ::
  "('p, 'w) provider list \<Rightarrow> u32 \<Rightarrow> ('p, 'w) qp \<times> 'w \<Rightarrow> u32 \<times> (('p, 'w) qp \<times> 'w)" where
  "refill_pass [] work s = (work, s)"
| "refill_pass (pr # prs) work s =
     (case call_provider pr s of
        (None, s1) \<Rightarrow> refill_pass prs work s1
      | (Some p, (q1, w1)) \<Rightarrow>
          (let q2 = q1\<lparr>tx_packetq := tx_packetq q1 @ [p]\<rparr>
           in if length (tx_packetq q2) = 128 then (work + 1, (q2, w1))
              else refill_pass prs (work + 1) (q2, w1)))"

lemma call_provider_tx: "call_provider pr s = (r, s1) \<Longrightarrow> tx_packetq (fst s1) = tx_packetq (fst s)"
  by (cases pr; cases s) (auto simp: proxy_provider_def split: list.splits prod.splits)

lemma call_provider_providers:
  "call_provider pr s = (r, s1) \<Longrightarrow> pkt_providers (fst s1) = pkt_providers (fst s)"
  by (cases pr; cases s) (auto simp: proxy_provider_def split: list.splits prod.splits)

lemma refill_pass_grows:
  "refill_pass prs work s = (work', s') \<Longrightarrow>
     length (tx_packetq (fst s)) \<le> length (tx_packetq (fst s')) \<and>
     (work' \<noteq> work \<longrightarrow> length (tx_packetq (fst s)) < length (tx_packetq (fst s')))"
proof (induction prs arbitrary: work s)
  case Nil
  then show ?case by simp
next
  case (Cons pr prs)
  obtain r s1 where c: "call_provider pr s = (r, s1)" by (cases "call_provider pr s")
  note tx = call_provider_tx [OF c]
  show ?case
  proof (cases r)
    case None
    with Cons.prems c have "refill_pass prs work s1 = (work', s')" by simp
    from Cons.IH [OF this] tx show ?thesis by simp
  next
    case (Some p)
    obtain q1 w1 where s1: "s1 = (q1, w1)" by (cases s1)
    let ?q2 = "q1\<lparr>tx_packetq := tx_packetq q1 @ [p]\<rparr>"
    show ?thesis
    proof (cases "length (tx_packetq ?q2) = 128")
      case True
      with Cons.prems c Some s1 have "s' = (?q2, w1)" by simp
      with tx s1 show ?thesis by simp
    next
      case False
      with Cons.prems c Some s1 have "refill_pass prs (work + 1) (?q2, w1) = (work', s')"
        by simp
      from Cons.IH [OF this] tx s1 show ?thesis by simp
    qed
  qed
qed

text \<open>
  The refill loop of \<^verbatim>\<open>poll_tx\<close>:
  \<^verbatim>\<open>do { work = 0; for (...) { ... } } while (work && _tx_packetq.size() < 128);\<close>
  Every pass that lets the loop go on has put a packet into a queue of fewer than 128.
\<close>

function refill :: "('p, 'w) qp \<times> 'w \<Rightarrow> ('p, 'w) qp \<times> 'w" where
  "refill s =
     (case refill_pass (pkt_providers (fst s)) 0 s of
        (work, s1) \<Rightarrow>
          if work \<noteq> 0 \<and> length (tx_packetq (fst s1)) < 128 then refill s1 else s1)"
  by pat_completeness auto
termination
proof (relation "measure (\<lambda>s. 128 - length (tx_packetq (fst s)))")
  show "wf (measure (\<lambda>s. 128 - length (tx_packetq (fst s))))" by simp
next
  fix s :: "('p, 'w) qp \<times> 'w" and work :: u32 and s1 :: "('p, 'w) qp \<times> 'w"
  assume pass: "(work, s1) = refill_pass (pkt_providers (fst s)) 0 s"
    and go: "work \<noteq> 0 \<and> length (tx_packetq (fst s1)) < 128"
  from pass have "refill_pass (pkt_providers (fst s)) 0 s = (work, s1)" by simp
  from refill_pass_grows [OF this] go
  show "(s1, s) \<in> measure (\<lambda>s. 128 - length (tx_packetq (fst s)))" by auto
qed

declare refill.simps [simp del]

text \<open>
  The backend's batch \<^verbatim>\<open>send(circular_buffer<packet>&)\<close> is virtual: it takes the
  queue and the outside state, and gives the count it reports, what it left in the queue
  and the new outside state. Its default sends the packets one by one with the
  backend's single-packet \<^verbatim>\<open>send\<close>:
  \<^verbatim>\<open>uint32_t sent = 0;
  while (!p.empty()) { send(std::move(p.front())); p.pop_front(); sent++; }
  return sent;\<close>
\<close>

type_synonym ('p, 'w) batch_send = "'p list \<Rightarrow> 'w \<Rightarrow> u32 \<times> 'p list \<times> 'w"

fun send_loop :: "('p \<Rightarrow> 'w \<Rightarrow> 'w) \<Rightarrow> u32 \<Rightarrow> ('p, 'w) batch_send" where
  "send_loop send1 sent [] w = (sent, [], w)"
| "send_loop send1 sent (p # ps) w = send_loop send1 (sent + 1) ps (send1 p w)"

definition send_default :: "('p \<Rightarrow> 'w \<Rightarrow> 'w) \<Rightarrow> ('p, 'w) batch_send" where
  "send_default send1 = send_loop send1 0"

text \<open>
  \<^verbatim>\<open>bool poll_tx() {
      if (_tx_packetq.size() < 16) { do { ... } while (...); }
      if (!_tx_packetq.empty()) {
          _last_tx_bunch = send(_tx_packetq);
          _packets_snt += _last_tx_bunch;
          return true; }
      return false; }\<close>
\<close>

definition refill_phase :: "('p, 'w) qp \<times> 'w \<Rightarrow> ('p, 'w) qp \<times> 'w" where
  "refill_phase s = (if length (tx_packetq (fst s)) < 16 then refill s else s)"

definition send_phase ::
  "('p, 'w) batch_send \<Rightarrow> ('p, 'w) qp \<times> 'w \<Rightarrow> bool \<times> (('p, 'w) qp \<times> 'w)" where
  "send_phase send s =
     (case s of (q, w) \<Rightarrow>
        if tx_packetq q \<noteq> [] then
          (case send (tx_packetq q) w of
             (n, txq, w1) \<Rightarrow>
               (let q1 = q\<lparr>tx_packetq := txq, last_tx_bunch := ucast n\<rparr>
                in (True, (q1\<lparr>packets_snt := packets_snt q1 + last_tx_bunch q1\<rparr>, w1))))
        else (False, (q, w)))"

definition poll_tx ::
  "('p, 'w) batch_send \<Rightarrow> ('p, 'w) qp \<times> 'w \<Rightarrow> bool \<times> (('p, 'w) qp \<times> 'w)" where
  "poll_tx send s = send_phase send (refill_phase s)"

text \<open>
  One pass of the refill loop as \<^verbatim>\<open>poll_tx\<close> runs it (\<^verbatim>\<open>work = 0\<close>, then the
  \<^verbatim>\<open>for\<close> loop over \<^verbatim>\<open>_pkt_providers\<close>), the number of packets it put into the
  batch, and whether the loop goes on after it.
\<close>

definition one_pass :: "('p, 'w) qp \<times> 'w \<Rightarrow> ('p, 'w) qp \<times> 'w" where
  "one_pass s = snd (refill_pass (pkt_providers (fst s)) 0 s)"

definition new_packets :: "('p, 'w) qp \<times> 'w \<Rightarrow> nat" where
  "new_packets s = length (tx_packetq (fst (one_pass s))) - length (tx_packetq (fst s))"

definition refill_goes_on :: "('p, 'w) qp \<times> 'w \<Rightarrow> bool" where
  "refill_goes_on s = (new_packets s \<noteq> 0 \<and> length (tx_packetq (fst (one_pass s))) < 128)"

text \<open>
  The specification's pass, in its words: ask every registered egress provider, in
  registration order, for one packet each; accumulate into the batch; stop early once
  the batch has reached 128. It returns the number of new packets.
\<close>

fun spec_pass ::
  "('p, 'w) provider list \<Rightarrow> ('p, 'w) qp \<times> 'w \<Rightarrow> nat \<times> (('p, 'w) qp \<times> 'w)" where
  "spec_pass [] s = (0, s)"
| "spec_pass (pr # prs) s =
     (if 128 \<le> length (tx_packetq (fst s)) then (0, s)
      else (case call_provider pr s of
              (None, s1) \<Rightarrow> spec_pass prs s1
            | (Some p, (q1, w1)) \<Rightarrow>
                (case spec_pass prs (q1\<lparr>tx_packetq := tx_packetq q1 @ [p]\<rparr>, w1) of
                   (n, s2) \<Rightarrow> (Suc n, s2))))"

text \<open>\<open>n\<close> successive invocations of one provider, with what each returned.\<close>

fun invoke_times ::
  "nat \<Rightarrow> ('p, 'w) provider \<Rightarrow> ('p, 'w) qp \<times> 'w \<Rightarrow> 'p option list \<times> (('p, 'w) qp \<times> 'w)" where
  "invoke_times 0 pr s = ([], s)"
| "invoke_times (Suc n) pr s =
     (case call_provider pr s of
        (r, s1) \<Rightarrow> (case invoke_times n pr s1 of (rs, s2) \<Rightarrow> (r # rs, s2)))"

text \<open>
  The count the backend reports in one call of \<^verbatim>\<open>poll_tx\<close>: what \<^verbatim>\<open>send\<close> returns
  for the batch after the refill, and zero when the batch is empty and nothing is sent.
\<close>

definition sent_count :: "('p, 'w) batch_send \<Rightarrow> ('p, 'w) qp \<times> 'w \<Rightarrow> u32" where
  "sent_count send s =
     (case refill_phase s of
        (q1, w1) \<Rightarrow> if tx_packetq q1 = [] then 0 else fst (send (tx_packetq q1) w1))"

subsection \<open>device\<close>

text \<open>
  \<^verbatim>\<open>std::unique_ptr<qp*[]> _queues; size_t _rss_table_bits = 0;\<close> The table has
  \<^verbatim>\<open>smp::count\<close> slots, all null after construction. A slot holds the queue pair it
  points to. \<^verbatim>\<open>engine.cpu_id()\<close> is the argument \<open>cpu_id\<close>.
\<close>

record ('p, 'w) device =
  queues :: "('p, 'w) qp option list"
  rss_table_bits :: nat

definition device_new :: "nat \<Rightarrow> ('p, 'w) device" where
  "device_new smp_count = \<lparr>queues = replicate smp_count None, rss_table_bits = 0\<rparr>"

text \<open>\<^verbatim>\<open>qp& queue_for_cpu(unsigned cpu) { return *_queues[cpu]; }\<close>\<close>

definition queue_for_cpu :: "('p, 'w) device \<Rightarrow> u32 \<Rightarrow> error + ('p, 'w) qp" where
  "queue_for_cpu d cpu =
     (if unat cpu < length (queues d)
      then (case queues d ! unat cpu of None \<Rightarrow> Inl Null_queue | Some q \<Rightarrow> Inr q)
      else Inl Out_of_bounds)"

text \<open>
  \<^verbatim>\<open>virtual unsigned hash2qid(uint32_t hash) { return hash % hw_queues_count(); }\<close>
  with \<^verbatim>\<open>virtual uint16_t hw_queues_count() { return 1; }\<close> a parameter.
\<close>

definition hash2qid :: "u16 \<Rightarrow> u32 \<Rightarrow> error + u32" where
  "hash2qid hw_queues_count hash =
     (if hw_queues_count = 0 then Inl Division_by_zero
      else Inr (hash mod ucast hw_queues_count))"

text \<open>
  \<^verbatim>\<open>void set_local_queue(std::unique_ptr<qp> dev) {
      assert(!_queues[engine.cpu_id()]);
      _queues[engine.cpu_id()] = dev.get();
      engine.at_destroy([dev = std::move(dev)] {}); }\<close>
\<close>

definition set_local_queue ::
  "u32 \<Rightarrow> ('p, 'w) device \<Rightarrow> ('p, 'w) qp \<Rightarrow> error + ('p, 'w) device" where
  "set_local_queue cpu_id d dev =
     (if unat cpu_id < length (queues d)
      then (case queues d ! unat cpu_id of
              Some _ \<Rightarrow> Inl Assertion_failed
            | None \<Rightarrow> Inr (d\<lparr>queues := (queues d)[unat cpu_id := Some dev]\<rparr>))
      else Inl Out_of_bounds)"

text \<open>
  \<^verbatim>\<open>unsigned forward_dst(unsigned src_cpuid, Func&& hashfn) {
      auto& qp = queue_for_cpu(src_cpuid);
      if (!qp.may_forward()) { return src_cpuid; }
      auto hash = hashfn() >> _rss_table_bits;
      auto idx = hash % (qp.proxies.size() + 1);
      return idx ? qp.proxies[idx - 1] : src_cpuid; }\<close>
\<close>

definition forward_dst ::
  "('p, 'w) device \<Rightarrow> u32 \<Rightarrow> (unit \<Rightarrow> u32) \<Rightarrow> error + u32" where
  "forward_dst d src_cpuid hashfn =
     (case queue_for_cpu d src_cpuid of
        Inl e \<Rightarrow> Inl e
      | Inr q \<Rightarrow>
          if \<not> may_forward q then Inr src_cpuid
          else if 32 \<le> rss_table_bits d then Inl Shift_too_wide
          else (let hash = drop_bit (rss_table_bits d) (hashfn ());
                    idx = unat hash mod (length (proxies q) + 1)
                in Inr (if idx \<noteq> 0 then proxies q ! (idx - 1) else src_cpuid)))"

text \<open>
  \<^verbatim>\<open>virtual unsigned hash2cpu(uint32_t hash) {
      return forward_dst(hash2qid(hash), [hash] { return hash; }); }\<close>
  The virtual \<^verbatim>\<open>hash2qid\<close> of the backend is the parameter \<open>h2q\<close>.
\<close>

definition hash2cpu ::
  "(u32 \<Rightarrow> error + u32) \<Rightarrow> ('p, 'w) device \<Rightarrow> u32 \<Rightarrow> error + u32" where
  "hash2cpu h2q d hash =
     (case h2q hash of
        Inl e \<Rightarrow> Inl e
      | Inr qid \<Rightarrow> forward_dst d qid (\<lambda>_. hash))"

subsection \<open>An example queue pair\<close>

text \<open>
  The outside state of the example is the list of packets an upper layer has pending and
  the list of packets put on the wire. The upper layer's provider hands out its pending
  packets one by one; the backend's single-packet \<^verbatim>\<open>send\<close> puts a packet on the
  wire. The queue pair has this provider registered, then one proxy added, then packet
  100 forwarded to it by \<^verbatim>\<open>proxy_send\<close>.
\<close>

definition pop_pending :: "nat list \<times> nat list \<Rightarrow> nat option \<times> (nat list \<times> nat list)" where
  "pop_pending w = (case fst w of [] \<Rightarrow> (None, w) | x # xs \<Rightarrow> (Some x, (xs, snd w)))"

definition put_on_wire :: "nat \<Rightarrow> nat list \<times> nat list \<Rightarrow> nat list \<times> nat list" where
  "put_on_wire p w = (fst w, snd w @ [p])"

definition example_qp :: "(nat, nat list \<times> nat list) qp" where
  "example_qp = proxy_send (add_proxy (register_packet_provider qp_new (Upper pop_pending)) 1) 100"

section \<open>Properties of forward\_hash\<close>

lemma store_bytes_below: "j < i \<Longrightarrow> store_bytes d i bs j = d j"
  by (induction bs arbitrary: d i) auto

lemma store_bytes_at: "k < length bs \<Longrightarrow> store_bytes d i bs (i + k) = bs ! k"
proof (induction bs arbitrary: d i k)
  case Nil
  then show ?case by simp
next
  case (Cons b bs)
  show ?case
  proof (cases k)
    case 0
    then show ?thesis by (simp add: store_bytes_below)
  next
    case (Suc k')
    with Cons.prems have "k' < length bs" by simp
    from Cons.IH [OF this, of "d(i := b)" "Suc i"] Suc show ?thesis
      by (simp del: fun_upd_apply)
  qed
qed

lemma store_bytes_append:
  "store_bytes d i (bs @ cs) = store_bytes (store_bytes d i bs) (i + length bs) cs"
  by (induction bs arbitrary: d i) auto

lemma ucast_drop_bit_low16: "(ucast (drop_bit 8 (ucast (x :: u32) :: u16)) :: u8) = ucast (drop_bit 8 x)"
  by (rule bit_word_eqI) (auto simp: bit_simps)

lemma ucast_low16: "(ucast (ucast (x :: u32) :: u16) :: u8) = ucast x"
  by (rule bit_word_eqI) (auto simp: bit_simps)

lemma ucast_high16: "(ucast (ucast (drop_bit 16 (x :: u32)) :: u16) :: u8) = ucast (drop_bit 16 x)"
  by (rule bit_word_eqI) (auto simp: bit_simps)

lemma ucast_drop_bit_high16:
  "(ucast (drop_bit 8 (ucast (drop_bit 16 (x :: u32)) :: u16)) :: u8) = ucast (drop_bit 24 x)"
  by (rule bit_word_eqI) (auto simp: bit_simps ac_simps)

text \<open>Each overload either writes the specification's bytes or fails the assertion.\<close>

lemma push_back_store:
  "push_back fh p =
     (if end_idx fh + length (spec_bytes p) \<le> data_size
      then Inr (fh\<lparr>data := store_bytes (data fh) (end_idx fh) (spec_bytes p),
                   end_idx := end_idx fh + length (spec_bytes p)\<rparr>)
      else Inl Assertion_failed)"
proof (cases p)
  case (Push8 b)
  then show ?thesis by (simp add: push_back_u8_def)
next
  case (Push16 b)
  then show ?thesis
    by (simp add: push_back_u16_def push_back_u8_def le_byte_def)
next
  case (Push32 b)
  then show ?thesis
    by (simp add: push_back_u32_def push_back_u16_def push_back_u8_def le_byte_def
        ucast_drop_bit_low16 ucast_low16 ucast_high16 ucast_drop_bit_high16)
qed

lemma push_back_all_store:
  "end_idx fh \<le> data_size \<Longrightarrow> push_back_all fh ps =
     (if end_idx fh + length (spec_bytes_all ps) \<le> data_size
      then Inr (fh\<lparr>data := store_bytes (data fh) (end_idx fh) (spec_bytes_all ps),
                   end_idx := end_idx fh + length (spec_bytes_all ps)\<rparr>)
      else Inl Assertion_failed)"
proof (induction ps arbitrary: fh)
  case Nil
  then show ?case by (simp add: spec_bytes_all_def)
next
  case (Cons p ps)
  have len: "length (spec_bytes_all (p # ps)) = length (spec_bytes p) + length (spec_bytes_all ps)"
    by (simp add: spec_bytes_all_def)
  have app: "spec_bytes_all (p # ps) = spec_bytes p @ spec_bytes_all ps"
    by (simp add: spec_bytes_all_def)
  show ?case
  proof (cases "end_idx fh + length (spec_bytes p) \<le> data_size")
    case True
    then show ?thesis
      by (simp add: push_back_store Cons.IH len app store_bytes_append add.assoc del: push_back.simps)
  next
    case False
    then have "\<not> end_idx fh + length (spec_bytes_all (p # ps)) \<le> data_size"
      unfolding len by linarith
    with False show ?thesis
      by (simp add: push_back_store del: push_back.simps)
  qed
qed


lemma le_bytes_value32:
  "unat (x :: u32) = unat (le_byte x 0) + 256 * unat (le_byte x 1) + 65536 * unat (le_byte x 2) + 16777216 * unat (le_byte x 3)"
proof -
  have b: "unat x < 4294967296" using unsigned_less [of x, where ?'a = nat] by simp
  have d: "\<And>n. unat (drop_bit n x) = unat x div 2 ^ n"
    by (simp only: unat_drop_bit_eq) (simp only: drop_bit_eq_div)
  have e: "\<And>k. unat (le_byte x k) = (unat x div 2 ^ (8 * k)) mod 256"
    by (simp add: le_byte_def unsigned_ucast_eq d take_bit_eq_mod)
  define n where "n = unat x"
  define q1 where "q1 = n div 256"
  define q2 where "q2 = n div 65536"
  define q3 where "q3 = n div 16777216"
  have d2: "q1 div 256 = q2" by (simp add: q1_def q2_def div_mult2_eq [symmetric])
  have d3: "q2 div 256 = q3" by (simp add: q2_def q3_def div_mult2_eq [symmetric])
  have s1: "n = n mod 256 + 256 * q1" by (simp add: q1_def)
  have s2: "q1 = q1 mod 256 + 256 * q2" unfolding d2 [symmetric] by simp
  have s3: "q2 = q2 mod 256 + 256 * q3" unfolding d3 [symmetric] by simp
  have s4: "q3 mod 256 = q3" using b by (simp add: n_def q3_def)
  have "n = n mod 256 + 256 * (q1 mod 256) + 65536 * (q2 mod 256) + 16777216 * q3"
    using s1 s2 s3 by linarith
  with s4 show ?thesis unfolding e by (simp add: n_def q1_def q2_def q3_def)
qed

lemma push_width_length: "length (spec_bytes p) = push_width p"
  by (cases p) (simp_all add: push_width_def)

lemma spec_bytes_all_length: "length (spec_bytes_all ps) = sum_list (map push_width ps)"
  by (induction ps) (simp_all add: spec_bytes_all_def push_width_length)

lemma forward_hash_after_pushes:
  assumes "sum_list (map push_width ps) \<le> 64"
  shows "push_back_all (forward_hash_new g) ps =
           Inr \<lparr>data = store_bytes g 0 (spec_bytes_all ps), end_idx = sum_list (map push_width ps)\<rparr>"
  using assms push_back_all_store [of "forward_hash_new g" ps]
  by (simp add: forward_hash_new_def spec_bytes_all_length data_size_def)

text \<open>
  Claim C6. A fresh accumulator, whatever its array held, takes any sequence of 1-, 2- and
  4-byte pushes whose widths add up to at most 64: no assertion fails, \<^verbatim>\<open>size()\<close>
  is the number of bytes appended, and the indexed read at every position below
  \<^verbatim>\<open>size()\<close> gives the byte appended at that position, in order.
\<close>

theorem forward_hash_roundtrip:
  assumes "sum_list (map push_width ps) \<le> 64"
  shows "\<exists>fh. push_back_all (forward_hash_new g) ps = Inr fh
           \<and> size_fh fh = sum_list (map push_width ps)
           \<and> length (spec_bytes_all ps) = size_fh fh
           \<and> (\<forall>i < size_fh fh. index_fh fh i = Inr (spec_bytes_all ps ! i))"
proof -
  let ?n = "sum_list (map push_width ps)"
  let ?fh = "\<lparr>data = store_bytes g 0 (spec_bytes_all ps), end_idx = ?n\<rparr>"
  have run: "push_back_all (forward_hash_new g) ps = Inr ?fh"
    by (rule forward_hash_after_pushes [OF assms])
  have sz: "size_fh ?fh = ?n" by (simp add: size_fh_def)
  have len: "length (spec_bytes_all ps) = size_fh ?fh"
    by (simp add: size_fh_def spec_bytes_all_length)
  have rd: "index_fh ?fh i = Inr (spec_bytes_all ps ! i)" if "i < size_fh ?fh" for i
  proof -
    from that have i: "i < length (spec_bytes_all ps)" by (simp add: len)
    with assms have "i < data_size" by (simp add: spec_bytes_all_length data_size_def)
    moreover from store_bytes_at [OF i, of g 0]
    have "store_bytes g 0 (spec_bytes_all ps) i = spec_bytes_all ps ! i" by simp
    ultimately show ?thesis by (simp add: index_fh_def)
  qed
  from run sz len rd show ?thesis by blast
qed

text \<open>Witness for C6: one byte, one 32-bit value and one 16-bit value, seven bytes in all.\<close>

theorem forward_hash_roundtrip_witness:
  "sum_list (map push_width [Push8 0xAB, Push32 0x01020304, Push16 0x0506]) \<le> 64
   \<and> (\<exists>fh. push_back_all (forward_hash_new (\<lambda>_. 0)) [Push8 0xAB, Push32 0x01020304, Push16 0x0506] = Inr fh
        \<and> size_fh fh = 7
        \<and> index_fh fh 0 = Inr 0xAB \<and> index_fh fh 1 = Inr 4 \<and> index_fh fh 2 = Inr 3
        \<and> index_fh fh 3 = Inr 2 \<and> index_fh fh 4 = Inr 1 \<and> index_fh fh 5 = Inr 6
        \<and> index_fh fh 6 = Inr 5)"
proof -
  let ?ps = "[Push8 0xAB, Push32 0x01020304, Push16 0x0506]"
  have h: "sum_list (map push_width ?ps) \<le> 64" by (simp add: push_width_def)
  have n: "sum_list (map push_width ?ps) = 7" by (simp add: push_width_def)
  have bs: "spec_bytes_all ?ps = [0xAB, 4, 3, 2, 1, 6, 5]"
    by (simp add: spec_bytes_all_def le_byte_def drop_bit_eq_div)
  from forward_hash_roundtrip [OF h, of "\<lambda>_. 0"]
  obtain fh where run: "push_back_all (forward_hash_new (\<lambda>_. 0)) ?ps = Inr fh"
    and sz: "size_fh fh = 7"
    and rd: "\<forall>i < size_fh fh. index_fh fh i = Inr (spec_bytes_all ?ps ! i)"
    unfolding n by blast
  from rd sz have "index_fh fh 0 = Inr 0xAB" "index_fh fh 1 = Inr 4" "index_fh fh 2 = Inr 3"
    "index_fh fh 3 = Inr 2" "index_fh fh 4 = Inr 1" "index_fh fh 5 = Inr 6" "index_fh fh 6 = Inr 5"
    unfolding bs by simp_all
  with h run sz show ?thesis by blast
qed

lemma push_back_u16_store:
  "push_back_u16 fh b = push_back fh (Push16 b)"
  by simp

text \<open>
  Claim C7. With room for four more bytes, pushing the low half of a 32-bit value and then
  its high half as 16-bit values succeeds and ends in exactly the state the 32-bit push
  ends in: four bytes more, the array holding the four bytes of the value from the old
  cursor on, least significant byte first (the value is the sum of byte \<open>k\<close> times
  \<open>256 ^ k\<close>).
\<close>

theorem push_back_u32_as_two_u16:
  assumes "end_idx fh + 4 \<le> 64"
  shows "(\<exists>fh1 fh2. push_back_u16 fh (ucast x) = Inr fh1
            \<and> push_back_u16 fh1 (ucast (drop_bit 16 x)) = Inr fh2
            \<and> push_back_u32 fh x = Inr fh2
            \<and> size_fh fh2 = size_fh fh + 4
            \<and> data fh2 = store_bytes (data fh) (end_idx fh)
                              [le_byte x 0, le_byte x 1, le_byte x 2, le_byte x 3])
         \<and> unat x = unat (le_byte x 0) + 256 * unat (le_byte x 1)
                       + 65536 * unat (le_byte x 2) + 16777216 * unat (le_byte x 3)"
proof -
  let ?lo = "ucast x :: u16" and ?hi = "ucast (drop_bit 16 x) :: u16"
  let ?fh1 = "fh\<lparr>data := store_bytes (data fh) (end_idx fh) (spec_bytes (Push16 ?lo)),
                     end_idx := end_idx fh + 2\<rparr>"
  let ?fh2 = "fh\<lparr>data := store_bytes (data fh) (end_idx fh) (spec_bytes (Push32 x)),
                     end_idx := end_idx fh + 4\<rparr>"
  from assms have lo: "push_back_u16 fh ?lo = Inr ?fh1"
    unfolding push_back_u16_store push_back_store by (simp add: data_size_def)
  from assms have whole: "push_back_u32 fh x = Inr ?fh2"
    using push_back_store [of fh "Push32 x"] by (simp add: data_size_def)
  from whole lo have hi: "push_back_u16 ?fh1 ?hi = Inr ?fh2"
    by (simp add: push_back_u32_def)
  have sz: "size_fh ?fh2 = size_fh fh + 4" by (simp add: size_fh_def)
  have dt: "data ?fh2 = store_bytes (data fh) (end_idx fh)
                          [le_byte x 0, le_byte x 1, le_byte x 2, le_byte x 3]"
    by simp
  from lo hi whole sz dt le_bytes_value32 [of x] show ?thesis by blast
qed

text \<open>Witness for C7: \<^verbatim>\<open>0x11223344\<close> pushed onto an empty accumulator.\<close>

theorem push_back_u32_as_two_u16_witness:
  "end_idx (forward_hash_new (\<lambda>_. 0)) + 4 \<le> 64
   \<and> (\<exists>fh1 fh2. push_back_u16 (forward_hash_new (\<lambda>_. 0)) 0x3344 = Inr fh1
          \<and> push_back_u16 fh1 0x1122 = Inr fh2
          \<and> push_back_u32 (forward_hash_new (\<lambda>_. 0)) 0x11223344 = Inr fh2
          \<and> size_fh fh2 = 4
          \<and> data fh2 = store_bytes (\<lambda>_. 0) 0 [0x44, 0x33, 0x22, 0x11])"
proof -
  let ?fh = "forward_hash_new (\<lambda>_. 0)"
  have h: "end_idx ?fh + 4 \<le> 64" by (simp add: forward_hash_new_def)
  have lo: "(ucast (0x11223344 :: u32) :: u16) = 0x3344" by simp
  have hi: "(ucast (drop_bit 16 (0x11223344 :: u32)) :: u16) = 0x1122"
    by (simp add: drop_bit_eq_div)
  have bs: "[le_byte (0x11223344 :: u32) 0, le_byte (0x11223344 :: u32) 1,
             le_byte (0x11223344 :: u32) 2, le_byte (0x11223344 :: u32) 3] = [0x44, 0x33, 0x22, 0x11]"
    by (simp add: le_byte_def drop_bit_eq_div)
  have z: "size_fh ?fh = 0" "end_idx ?fh = 0" "data ?fh = (\<lambda>_. 0)"
    by (simp_all add: size_fh_def forward_hash_new_def)
  from push_back_u32_as_two_u16 [OF h, of "0x11223344"] h
  show ?thesis unfolding lo hi bs z by simp
qed

text \<open>
  Claim C8. A push whose bytes would take the cursor past 64 fails the assertion, and
  gives no accumulator back; a push that stays within 64 never fails it, and all of its
  bytes are stored.
\<close>

theorem push_back_capacity:
  "(64 < end_idx fh + push_width p \<longrightarrow> push_back fh p = Inl Assertion_failed)
   \<and> (end_idx fh + push_width p \<le> 64 \<longrightarrow>
        (\<exists>fh'. push_back fh p = Inr fh'
           \<and> size_fh fh' = size_fh fh + push_width p
           \<and> data fh' = store_bytes (data fh) (end_idx fh) (spec_bytes p)))"
  by (simp add: push_back_store push_width_length data_size_def size_fh_def del: push_back.simps)

text \<open>
  Witness for C8: a 32-bit push at cursor 62 and a one-byte push at cursor 64 fail; a
  16-bit push at cursor 62 fills the array.
\<close>

theorem push_back_capacity_witness:
  "64 < end_idx \<lparr>data = (\<lambda>_. 0), end_idx = 62\<rparr> + push_width (Push32 1)
   \<and> push_back \<lparr>data = (\<lambda>_. 0), end_idx = 62\<rparr> (Push32 1) = Inl Assertion_failed
   \<and> 64 < end_idx \<lparr>data = (\<lambda>_. 0), end_idx = 64\<rparr> + push_width (Push8 7)
   \<and> push_back \<lparr>data = (\<lambda>_. 0), end_idx = 64\<rparr> (Push8 7) = Inl Assertion_failed
   \<and> end_idx \<lparr>data = (\<lambda>_. 0), end_idx = 62\<rparr> + push_width (Push16 0x0102) \<le> 64
   \<and> (\<exists>fh'. push_back \<lparr>data = (\<lambda>_. 0), end_idx = 62\<rparr> (Push16 0x0102) = Inr fh'
          \<and> size_fh fh' = 64 \<and> data fh' 62 = 2 \<and> data fh' 63 = 1)"
proof -
  let ?a = "\<lparr>data = (\<lambda>_. 0 :: u8), end_idx = 62\<rparr>"
  let ?b = "\<lparr>data = (\<lambda>_. 0 :: u8), end_idx = 64\<rparr>"
  have h1: "64 < end_idx ?a + push_width (Push32 1)" by (simp add: push_width_def)
  have h2: "64 < end_idx ?b + push_width (Push8 7)" by (simp add: push_width_def)
  have h3: "end_idx ?a + push_width (Push16 0x0102) \<le> 64" by (simp add: push_width_def)
  from push_back_capacity [of ?a "Push32 1"] h1
  have c1: "push_back ?a (Push32 1) = Inl Assertion_failed" by blast
  from push_back_capacity [of ?b "Push8 7"] h2
  have c2: "push_back ?b (Push8 7) = Inl Assertion_failed" by blast
  from push_back_capacity [of ?a "Push16 0x0102"] h3
  obtain fh' where r: "push_back ?a (Push16 0x0102) = Inr fh'"
    and sz: "size_fh fh' = size_fh ?a + push_width (Push16 0x0102)"
    and dt: "data fh' = store_bytes (data ?a) (end_idx ?a) (spec_bytes (Push16 0x0102))"
    by blast
  from sz have sz': "size_fh fh' = 64" by (simp add: size_fh_def push_width_def)
  from dt have d: "data fh' 62 = 2" "data fh' 63 = 1"
    by (simp_all add: le_byte_def drop_bit_eq_div)
  from h1 h2 h3 c1 c2 r sz' d show ?thesis by blast
qed

section \<open>Properties of qp\<close>

lemma add_proxy_fold_proxies: "proxies (foldl add_proxy q cpus) = proxies q @ cpus"
  by (induction cpus arbitrary: q) (simp_all add: add_proxy_def register_packet_provider_def Let_def)

lemma add_proxy_keeps_providers:
  "proxies q \<noteq> [] \<Longrightarrow> pkt_providers (foldl add_proxy q cpus) = pkt_providers q"
  by (induction cpus arbitrary: q) (simp_all add: add_proxy_def Let_def)

lemma add_proxy_first:
  "proxies q = [] \<Longrightarrow> pkt_providers (add_proxy q cpu) = pkt_providers q @ [Proxy_drain]
     \<and> proxies (add_proxy q cpu) \<noteq> []"
  by (simp add: add_proxy_def register_packet_provider_def)

text \<open>
  Claim C4. On a newly constructed queue pair on which nothing but \<^verbatim>\<open>add_proxy\<close> is
  called, after any \<open>n \<ge> 1\<close> calls the provider list is the proxy-draining provider
  alone, of length 1, and the proxy list holds the \<open>n\<close> core ids in call order. The
  statement holds for every non-empty list of calls, so after every call of a sequence.
\<close>

theorem add_proxy_registers_once:
  assumes "cpus \<noteq> []"
  shows "pkt_providers (foldl add_proxy (qp_new :: ('p, 'w) qp) cpus) = [Proxy_drain]
         \<and> length (pkt_providers (foldl add_proxy (qp_new :: ('p, 'w) qp) cpus)) = 1
         \<and> proxies (foldl add_proxy (qp_new :: ('p, 'w) qp) cpus) = cpus
         \<and> length (proxies (foldl add_proxy (qp_new :: ('p, 'w) qp) cpus)) = length cpus"
proof -
  let ?fresh = "qp_new :: ('p, 'w) qp"
  from assms obtain c cs where cpus: "cpus = c # cs" by (cases cpus) auto
  have e: "proxies ?fresh = []" "pkt_providers ?fresh = []"
    by (simp_all add: qp_new_def)
  from add_proxy_first [OF e(1), of c] e(2)
  have one: "pkt_providers (add_proxy ?fresh c) = [Proxy_drain]"
    and ne: "proxies (add_proxy ?fresh c) \<noteq> []" by simp_all
  from add_proxy_keeps_providers [OF ne, of cs] one
  have p: "pkt_providers (foldl add_proxy ?fresh cpus) = [Proxy_drain]"
    by (simp add: cpus)
  have x: "proxies (foldl add_proxy ?fresh cpus) = cpus"
    by (simp add: add_proxy_fold_proxies e)
  from p x show ?thesis by simp
qed

text \<open>Witness for C4: three calls, two of them for the same core.\<close>

theorem add_proxy_registers_once_witness:
  "[3, 5, 5 :: u32] \<noteq> []
   \<and> pkt_providers (foldl add_proxy (qp_new :: (nat, nat) qp) [3, 5, 5]) = [Proxy_drain]
   \<and> length (pkt_providers (foldl add_proxy (qp_new :: (nat, nat) qp) [3, 5, 5])) = 1
   \<and> proxies (foldl add_proxy (qp_new :: (nat, nat) qp) [3, 5, 5]) = [3, 5, 5]
   \<and> length (proxies (foldl add_proxy (qp_new :: (nat, nat) qp) [3, 5, 5])) = 3"
proof -
  have h: "[3, 5, 5 :: u32] \<noteq> []" by simp
  from add_proxy_registers_once [OF h, where ?'p = nat and ?'w = nat] h show ?thesis by simp
qed

lemma proxy_send_fold: "proxy_packetq (foldl proxy_send q ps) = proxy_packetq q @ ps"
  by (induction ps arbitrary: q) (simp_all add: proxy_send_def)

lemma invoke_times_drain:
  "fst (invoke_times m Proxy_drain (q, w)) =
     map Some (take m (proxy_packetq q)) @ replicate (m - length (proxy_packetq q)) None"
proof (induction m arbitrary: q)
  case 0
  then show ?case by simp
next
  case (Suc m)
  show ?case
  proof (cases "proxy_packetq q")
    case Nil
    then have "call_provider Proxy_drain (q, w) = (None, (q, w))"
      by (simp add: proxy_provider_def)
    with Suc.IH [of q] Nil show ?thesis
      by (simp add: split_beta replicate_append_same)
  next
    case (Cons p rest)
    then have "call_provider Proxy_drain (q, w) = (Some p, (q\<lparr>proxy_packetq := rest\<rparr>, w))"
      by (simp add: proxy_provider_def)
    with Suc.IH [of "q\<lparr>proxy_packetq := rest\<rparr>"] Cons show ?thesis
      by (simp add: split_beta)
  qed
qed

text \<open>
  Claim C5. After \<^verbatim>\<open>proxy_send\<close> of the packets \<open>ps\<close> in order into an empty proxy
  queue, \<open>m\<close> successive invocations of the proxy-draining provider return the first
  \<open>m\<close> packets of \<open>ps\<close> in that order, one each, and nothing from the moment the
  queue is empty.
\<close>

theorem proxy_queue_fifo:
  assumes "proxy_packetq q = []"
  shows "fst (invoke_times m Proxy_drain (foldl proxy_send q ps, w)) =
           map Some (take m ps) @ replicate (m - length ps) None"
  using assms invoke_times_drain [of m "foldl proxy_send q ps" w]
  by (simp add: proxy_send_fold)

text \<open>Witness for C5: three packets, drained by five and by two invocations.\<close>

theorem proxy_queue_fifo_witness:
  "proxy_packetq (qp_new :: (nat, nat) qp) = []
   \<and> fst (invoke_times 5 Proxy_drain (foldl proxy_send (qp_new :: (nat, nat) qp) [10, 20, 30], 0)) =
        [Some 10, Some 20, Some 30, None, None]
   \<and> fst (invoke_times 2 Proxy_drain (foldl proxy_send (qp_new :: (nat, nat) qp) [10, 20, 30], 0)) =
        [Some 10, Some 20]"
proof -
  have h: "proxy_packetq (qp_new :: (nat, nat) qp) = []" by (simp add: qp_new_def)
  have five: "replicate (5 - length [10, 20, 30 :: nat]) (None :: nat option) = [None, None]"
    by (simp add: numeral_eq_Suc)
  from proxy_queue_fifo [OF h, of 5 "[10, 20, 30]" 0] proxy_queue_fifo [OF h, of 2 "[10, 20, 30]" 0] h
  show ?thesis unfolding five by (simp add: numeral_eq_Suc)
qed

section \<open>Properties of device\<close>

text \<open>
  Claim C9. For the calling core's slot of the table: when it is empty,
  \<^verbatim>\<open>set_local_queue\<close> installs the queue pair there, the assertion does not fire and
  every other slot is left as it was; when it is occupied, the assertion fails.
\<close>

theorem set_local_queue_once:
  assumes "unat cpu_id < length (queues d)"
  shows "(queues d ! unat cpu_id = None \<longrightarrow>
            (\<exists>d'. set_local_queue cpu_id d dev = Inr d'
               \<and> queues d' ! unat cpu_id = Some dev
               \<and> length (queues d') = length (queues d)
               \<and> (\<forall>c. c \<noteq> unat cpu_id \<longrightarrow> queues d' ! c = queues d ! c)
               \<and> rss_table_bits d' = rss_table_bits d))
         \<and> (queues d ! unat cpu_id \<noteq> None \<longrightarrow>
              set_local_queue cpu_id d dev = Inl Assertion_failed)"
  using assms by (auto simp: set_local_queue_def)

text \<open>Witness for C9: core 2 of four installs its queue pair once; the second call fails.\<close>

theorem set_local_queue_once_witness:
  "unat (2 :: u32) < length (queues (device_new 4 :: (nat, nat) device))
   \<and> queues (device_new 4 :: (nat, nat) device) ! unat (2 :: u32) = None
   \<and> (\<exists>d'. set_local_queue 2 (device_new 4 :: (nat, nat) device) qp_new = Inr d'
          \<and> queues d' ! unat (2 :: u32) = Some qp_new
          \<and> unat (2 :: u32) < length (queues d')
          \<and> queues d' ! unat (2 :: u32) \<noteq> None
          \<and> set_local_queue 2 d' qp_new = Inl Assertion_failed)"
proof -
  let ?d = "device_new 4 :: (nat, nat) device"
  have h: "unat (2 :: u32) < length (queues ?d)" by (simp add: device_new_def)
  have e: "queues ?d ! unat (2 :: u32) = None" by (simp add: device_new_def)
  from set_local_queue_once [OF h, of qp_new] e
  obtain d' where r: "set_local_queue 2 ?d qp_new = Inr d'"
    and s: "queues d' ! unat (2 :: u32) = Some qp_new"
    and l: "length (queues d') = length (queues ?d)" by blast
  from l h have h': "unat (2 :: u32) < length (queues d')" by simp
  from s have ne: "queues d' ! unat (2 :: u32) \<noteq> None" by simp
  from set_local_queue_once [OF h', of qp_new] ne
  have "set_local_queue 2 d' qp_new = Inl Assertion_failed" by blast
  with h e r s h' ne show ?thesis by blast
qed

lemma unat_shift_right: "unat (drop_bit n (x :: u32)) = unat x div 2 ^ n"
  by (simp only: unat_drop_bit_eq) (simp only: drop_bit_eq_div)

text \<open>
  Claim C2. When the queue pair of the originating core (the queue id \<open>src\<close> picked by
  \<^verbatim>\<open>hash2qid\<close>) has proxies, \<^verbatim>\<open>hash2cpu\<close> computes the index
  \<open>(hash >> rss_table_bits) mod (number of proxies + 1)\<close>; index 0 gives the
  originating core, index \<open>k \<ge> 1\<close> gives \<open>proxies[k - 1]\<close>, which exists. The shift
  is defined for fewer than 32 bits.
\<close>

theorem hash2cpu_index:
  assumes "h2q hash = Inr src" and "queue_for_cpu d src = Inr q" and "proxies q \<noteq> []"
    and "rss_table_bits d < 32"
  shows "(let idx = (unat hash div 2 ^ rss_table_bits d) mod (length (proxies q) + 1)
          in (idx = 0 \<longrightarrow> hash2cpu h2q d hash = Inr src)
             \<and> (1 \<le> idx \<longrightarrow> idx - 1 < length (proxies q)
                   \<and> hash2cpu h2q d hash = Inr (proxies q ! (idx - 1))))"
proof -
  let ?idx = "(unat hash div 2 ^ rss_table_bits d) mod (length (proxies q) + 1)"
  have "?idx < length (proxies q) + 1" by simp
  then have b: "1 \<le> ?idx \<Longrightarrow> ?idx - 1 < length (proxies q)" by linarith
  from assms have r: "hash2cpu h2q d hash = Inr (if ?idx \<noteq> 0 then proxies q ! (?idx - 1) else src)"
    by (simp add: hash2cpu_def forward_dst_def may_forward_def unat_shift_right Let_def)
  show ?thesis unfolding Let_def using r b by auto
qed

text \<open>
  Claim C3. When the queue pair selected by the hash has no proxies, \<^verbatim>\<open>hash2cpu\<close>
  returns the queue id picked by \<^verbatim>\<open>hash2qid\<close>, whatever the hash and the number of
  table bits: neither the shift nor the modulo is evaluated.
\<close>

theorem hash2cpu_no_proxies:
  assumes "h2q hash = Inr src" and "queue_for_cpu d src = Inr q" and "proxies q = []"
  shows "hash2cpu h2q d hash = Inr src"
  using assms by (simp add: hash2cpu_def forward_dst_def may_forward_def)

text \<open>
  Witness for C2: proxies \<open>[5, 9]\<close> on core 0 with 7 table bits; the hashes 384, 128
  and 256 have the indices 0, 1 and 2 and go to core 0, 5 and 9.
\<close>

theorem hash2cpu_index_witness:
  "hash2qid 1 128 = Inr 0 \<and> hash2qid 1 256 = Inr 0 \<and> hash2qid 1 384 = Inr 0
   \<and> queue_for_cpu \<lparr>queues = [Some (foldl add_proxy (qp_new :: (nat, nat) qp) [5, 9])], rss_table_bits = 7\<rparr> 0
        = Inr (foldl add_proxy qp_new [5, 9])
   \<and> proxies (foldl add_proxy (qp_new :: (nat, nat) qp) [5, 9]) = [5, 9]
   \<and> (7 :: nat) < 32
   \<and> hash2cpu (hash2qid 1)
        \<lparr>queues = [Some (foldl add_proxy (qp_new :: (nat, nat) qp) [5, 9])], rss_table_bits = 7\<rparr> 384 = Inr 0
   \<and> hash2cpu (hash2qid 1)
        \<lparr>queues = [Some (foldl add_proxy (qp_new :: (nat, nat) qp) [5, 9])], rss_table_bits = 7\<rparr> 128 = Inr 5
   \<and> hash2cpu (hash2qid 1)
        \<lparr>queues = [Some (foldl add_proxy (qp_new :: (nat, nat) qp) [5, 9])], rss_table_bits = 7\<rparr> 256 = Inr 9"
proof -
  let ?q = "foldl add_proxy (qp_new :: (nat, nat) qp) [5, 9]"
  let ?d = "\<lparr>queues = [Some ?q], rss_table_bits = 7\<rparr>"
  have q: "hash2qid 1 128 = Inr 0" "hash2qid 1 256 = Inr 0" "hash2qid 1 384 = Inr 0"
    by (simp_all add: hash2qid_def)
  have f: "queue_for_cpu ?d 0 = Inr ?q" by (simp add: queue_for_cpu_def)
  have p: "proxies ?q = [5, 9]"
    by (simp add: add_proxy_def register_packet_provider_def qp_new_def)
  then have ne: "proxies ?q \<noteq> []" by simp
  have b: "rss_table_bits ?d < 32" by simp
  have i0: "(unat (384 :: u32) div 2 ^ rss_table_bits ?d) mod (length (proxies ?q) + 1) = 0"
    unfolding p by simp
  have i1: "(unat (128 :: u32) div 2 ^ rss_table_bits ?d) mod (length (proxies ?q) + 1) = 1"
    unfolding p by simp
  have i2: "(unat (256 :: u32) div 2 ^ rss_table_bits ?d) mod (length (proxies ?q) + 1) = 2"
    unfolding p by simp
  from hash2cpu_index [of "hash2qid 1" 384 0 ?d ?q, OF q(3) f ne b] have r0: "hash2cpu (hash2qid 1) ?d 384 = Inr 0"
    unfolding Let_def i0 by simp
  from hash2cpu_index [of "hash2qid 1" 128 0 ?d ?q, OF q(1) f ne b] have r1: "hash2cpu (hash2qid 1) ?d 128 = Inr 5"
    unfolding Let_def i1 p by simp
  from hash2cpu_index [of "hash2qid 1" 256 0 ?d ?q, OF q(2) f ne b] have r2: "hash2cpu (hash2qid 1) ?d 256 = Inr 9"
    unfolding Let_def i2 p by simp
  from q f p r0 r1 r2 show ?thesis by simp
qed

text \<open>Witness for C3: two queues without proxies and 40 table bits; hash 7 stays on core 1.\<close>

theorem hash2cpu_no_proxies_witness:
  "hash2qid 2 7 = Inr 1
   \<and> queue_for_cpu \<lparr>queues = [Some (qp_new :: (nat, nat) qp), Some qp_new], rss_table_bits = 40\<rparr> 1 = Inr qp_new
   \<and> proxies (qp_new :: (nat, nat) qp) = []
   \<and> hash2cpu (hash2qid 2)
        \<lparr>queues = [Some (qp_new :: (nat, nat) qp), Some qp_new], rss_table_bits = 40\<rparr> 7 = Inr 1"
proof -
  let ?d = "\<lparr>queues = [Some (qp_new :: (nat, nat) qp), Some qp_new], rss_table_bits = 40\<rparr>"
  have q: "hash2qid 2 7 = Inr 1" by (simp add: hash2qid_def)
  have f: "queue_for_cpu ?d 1 = Inr qp_new" by (simp add: queue_for_cpu_def)
  have p: "proxies (qp_new :: (nat, nat) qp) = []" by (simp add: qp_new_def)
  from hash2cpu_no_proxies [of "hash2qid 2" 7 1 ?d qp_new, OF q f p] q f p show ?thesis by simp
qed

section \<open>The transmit poller\<close>

lemma spec_pass_at_cap: "128 \<le> length (tx_packetq (fst s)) \<Longrightarrow> spec_pass prs s = (0, s)"
  by (cases prs) simp_all

lemma spec_pass_length:
  "spec_pass prs s = (n, s') \<Longrightarrow>
     length (tx_packetq (fst s')) = length (tx_packetq (fst s)) + n \<and>
     (length (tx_packetq (fst s)) \<le> 128 \<longrightarrow> length (tx_packetq (fst s')) \<le> 128)"
proof (induction prs arbitrary: s n s')
  case Nil
  then show ?case by simp
next
  case (Cons pr prs)
  show ?case
  proof (cases "128 \<le> length (tx_packetq (fst s))")
    case True
    with Cons.prems show ?thesis by simp
  next
    case False
    obtain r s1 where c: "call_provider pr s = (r, s1)" by (cases "call_provider pr s")
    note tx = call_provider_tx [OF c]
    show ?thesis
    proof (cases r)
      case None
      with Cons.prems c False have "spec_pass prs s1 = (n, s')" by simp
      from Cons.IH [OF this] tx show ?thesis by auto
    next
      case (Some p)
      obtain q1 w1 where s1: "s1 = (q1, w1)" by (cases s1)
      let ?s2 = "(q1\<lparr>tx_packetq := tx_packetq q1 @ [p]\<rparr>, w1)"
      obtain m t where r: "spec_pass prs ?s2 = (m, t)" by (cases "spec_pass prs ?s2")
      with Cons.prems c False Some s1 have e: "n = Suc m" "s' = t" by simp_all
      from Cons.IH [OF r] tx s1 e False show ?thesis by auto
    qed
  qed
qed

lemma refill_pass_spec:
  "length (tx_packetq (fst s)) < 128 \<Longrightarrow> spec_pass prs s = (n, s') \<Longrightarrow>
     refill_pass prs work s = (work + of_nat n, s')"
proof (induction prs arbitrary: s n s' work)
  case Nil
  then show ?case by simp
next
  case (Cons pr prs)
  obtain r s1 where c: "call_provider pr s = (r, s1)" by (cases "call_provider pr s")
  note tx = call_provider_tx [OF c]
  from Cons.prems(1) have nc: "\<not> 128 \<le> length (tx_packetq (fst s))" by simp
  show ?case
  proof (cases r)
    case None
    with Cons.prems c nc have sp: "spec_pass prs s1 = (n, s')" by simp
    from Cons.prems(1) tx have "length (tx_packetq (fst s1)) < 128" by simp
    from Cons.IH [OF this sp, of work] c None show ?thesis by simp
  next
    case (Some p)
    obtain q1 w1 where s1: "s1 = (q1, w1)" by (cases s1)
    let ?q2 = "q1\<lparr>tx_packetq := tx_packetq q1 @ [p]\<rparr>"
    obtain m t where r: "spec_pass prs (?q2, w1) = (m, t)" by (cases "spec_pass prs (?q2, w1)")
    with Cons.prems c nc Some s1 have e: "n = Suc m" "s' = t" by simp_all
    show ?thesis
    proof (cases "length (tx_packetq ?q2) = 128")
      case True
      then have "spec_pass prs (?q2, w1) = (0, (?q2, w1))"
        by (intro spec_pass_at_cap) simp
      with r have "m = 0" "t = (?q2, w1)" by simp_all
      with c Some s1 True e show ?thesis by simp
    next
      case False
      with Cons.prems(1) tx s1 have "length (tx_packetq (fst (?q2, w1))) < 128" by simp
      from Cons.IH [OF this r, of "work + 1"] c Some s1 False e show ?thesis by simp
    qed
  qed
qed

lemma of_nat_u32_zero: "n \<le> 128 \<Longrightarrow> ((of_nat n :: u32) = 0) = (n = 0)"
proof -
  assume "n \<le> 128"
  then have "n < 2 ^ 32" by (rule le_less_trans) simp
  then have "unat (of_nat n :: u32) = n"
    by (simp add: unat_of_nat take_bit_nat_eq_self)
  then have "n \<noteq> 0 \<Longrightarrow> (of_nat n :: u32) \<noteq> 0" by auto
  then show ?thesis by auto
qed

lemma pass_below_cap:
  assumes "length (tx_packetq (fst s)) < 128"
  shows "refill_pass (pkt_providers (fst s)) 0 s =
           (of_nat (new_packets s), one_pass s)"
    and "spec_pass (pkt_providers (fst s)) s = (new_packets s, one_pass s)"
    and "length (tx_packetq (fst (one_pass s))) \<le> 128"
    and "new_packets s \<le> 128"
proof -
  obtain n s' where sp: "spec_pass (pkt_providers (fst s)) s = (n, s')"
    by (cases "spec_pass (pkt_providers (fst s)) s")
  from refill_pass_spec [OF assms sp, of 0]
  have rp: "refill_pass (pkt_providers (fst s)) 0 s = (of_nat n, s')" by simp
  then have op: "one_pass s = s'" by (simp add: one_pass_def)
  from spec_pass_length [OF sp] assms
  have len: "length (tx_packetq (fst s')) = length (tx_packetq (fst s)) + n"
    and cap: "length (tx_packetq (fst s')) \<le> 128" by simp_all
  from len op have np: "new_packets s = n" by (simp add: new_packets_def)
  from rp op np show "refill_pass (pkt_providers (fst s)) 0 s = (of_nat (new_packets s), one_pass s)"
    by simp
  from sp op np show "spec_pass (pkt_providers (fst s)) s = (new_packets s, one_pass s)" by simp
  from cap op show "length (tx_packetq (fst (one_pass s))) \<le> 128" by simp
  from len cap np show "new_packets s \<le> 128" by simp
qed

lemma refill_run:
  "length (tx_packetq (fst s)) < 128 \<Longrightarrow>
     \<exists>k. refill s = (one_pass ^^ Suc k) s
        \<and> (\<forall>j<k. refill_goes_on ((one_pass ^^ j) s))
        \<and> \<not> refill_goes_on ((one_pass ^^ k) s)
        \<and> (\<forall>j\<le>k. length (tx_packetq (fst ((one_pass ^^ j) s))) < 128)
        \<and> length (tx_packetq (fst (refill s))) \<le> 128"
proof (induction s rule: refill.induct)
  case (1 s)
  let ?work = "of_nat (new_packets s) :: u32"
  note p = pass_below_cap [OF "1.prems"]
  have wz: "(?work \<noteq> 0) = (new_packets s \<noteq> 0)"
    using of_nat_u32_zero [OF p(4)] by simp
  show ?case
  proof (cases "refill_goes_on s")
    case True
    then have go: "?work \<noteq> 0 \<and> length (tx_packetq (fst (one_pass s))) < 128"
      by (simp add: refill_goes_on_def wz)
    then have r: "refill s = refill (one_pass s)"
      by (subst refill.simps) (simp add: p(1))
    from go have "length (tx_packetq (fst (one_pass s))) < 128" by simp
    from "1.IH" [OF p(1) [symmetric] go this]
    obtain k where k: "refill (one_pass s) = (one_pass ^^ Suc k) (one_pass s)"
      "\<forall>j<k. refill_goes_on ((one_pass ^^ j) (one_pass s))"
      "\<not> refill_goes_on ((one_pass ^^ k) (one_pass s))"
      "length (tx_packetq (fst (refill (one_pass s)))) \<le> 128"
      "\<forall>j\<le>k. length (tx_packetq (fst ((one_pass ^^ j) (one_pass s)))) < 128" by blast
    have sw: "(one_pass ^^ j) (one_pass s) = (one_pass ^^ Suc j) s" for j
      by (simp add: funpow_swap1)
    have a: "refill s = (one_pass ^^ Suc (Suc k)) s"
      using k(1) r sw [of "Suc k"] by simp
    have b: "\<forall>j<Suc k. refill_goes_on ((one_pass ^^ j) s)"
    proof (intro allI impI)
      fix j assume j: "j < Suc k"
      show "refill_goes_on ((one_pass ^^ j) s)"
      proof (cases j)
        case 0
        with True show ?thesis by simp
      next
        case (Suc i)
        with j k(2) have "refill_goes_on ((one_pass ^^ i) (one_pass s))" by simp
        then have "refill_goes_on ((one_pass ^^ Suc i) s)" unfolding sw .
        with Suc show ?thesis by simp
      qed
    qed
    have c: "\<not> refill_goes_on ((one_pass ^^ Suc k) s)"
      using k(3) unfolding sw .
    from k(4) r have d: "length (tx_packetq (fst (refill s))) \<le> 128" by simp
    have e: "\<forall>j\<le>Suc k. length (tx_packetq (fst ((one_pass ^^ j) s))) < 128"
    proof (intro allI impI)
      fix j assume j: "j \<le> Suc k"
      show "length (tx_packetq (fst ((one_pass ^^ j) s))) < 128"
      proof (cases j)
        case 0
        with "1.prems" show ?thesis by simp
      next
        case (Suc i)
        with j k(5) have "length (tx_packetq (fst ((one_pass ^^ i) (one_pass s)))) < 128" by simp
        then have "length (tx_packetq (fst ((one_pass ^^ Suc i) s))) < 128" unfolding sw .
        with Suc show ?thesis by simp
      qed
    qed
    from a b c d e show ?thesis by blast
  next
    case False
    then have stop: "\<not> (?work \<noteq> 0 \<and> length (tx_packetq (fst (one_pass s))) < 128)"
      by (simp add: refill_goes_on_def wz)
    then have r: "refill s = one_pass s"
      by (subst refill.simps) (auto simp: p(1))
    have "refill s = (one_pass ^^ Suc 0) s" by (simp add: r)
    moreover have "\<forall>j<0. refill_goes_on ((one_pass ^^ j) s)" by simp
    moreover from False have "\<not> refill_goes_on ((one_pass ^^ 0) s)" by simp
    moreover from p(3) r have "length (tx_packetq (fst (refill s))) \<le> 128" by simp
    moreover from "1.prems" have "\<forall>j\<le>0. length (tx_packetq (fst ((one_pass ^^ j) s))) < 128"
      by simp
    ultimately show ?thesis by blast
  qed
qed

lemma poll_tx_unfold:
  "poll_tx send s =
     (case refill_phase s of
        (q1, w1) \<Rightarrow>
          if tx_packetq q1 = [] then (False, (q1, w1))
          else (case send (tx_packetq q1) w1 of
                  (n, txq, w2) \<Rightarrow>
                    (True, (q1\<lparr>tx_packetq := txq, last_tx_bunch := ucast n,
                                packets_snt := packets_snt q1 + ucast n\<rparr>, w2))))"
  by (simp add: poll_tx_def send_phase_def split: prod.splits)

text \<open>
  Claim C1. One call of \<^verbatim>\<open>poll_tx\<close>, for every queue pair, outside state and backend
  \<^verbatim>\<open>send\<close>. With 16 or more packets in the batch nothing is refilled. With fewer
  than 16 the refill is a sequence of \<open>k + 1\<close> passes: each of the first \<open>k\<close> yields
  a new packet and leaves the batch below 128, the last yields none or leaves the batch
  at 128, every pass starts below 128, and the batch never exceeds 128. A pass that
  starts below 128 is the specification's pass: every provider asked once in
  registration order, stopping early at 128. Then \<^verbatim>\<open>poll_tx\<close> returns false and
  changes nothing more when the batch is empty, and otherwise hands the whole batch to
  \<^verbatim>\<open>send\<close>, records the count it reports and returns true.
\<close>

theorem poll_tx_batching:
  "(16 \<le> length (tx_packetq q) \<longrightarrow> refill_phase (q, w) = (q, w))
   \<and> (length (tx_packetq q) < 16 \<longrightarrow>
        (\<exists>k. refill_phase (q, w) = (one_pass ^^ Suc k) (q, w)
           \<and> (\<forall>j<k. new_packets ((one_pass ^^ j) (q, w)) \<noteq> 0
                  \<and> length (tx_packetq (fst ((one_pass ^^ Suc j) (q, w)))) < 128)
           \<and> (new_packets ((one_pass ^^ k) (q, w)) = 0
                \<or> length (tx_packetq (fst (refill_phase (q, w)))) = 128)
           \<and> (\<forall>j\<le>k. length (tx_packetq (fst ((one_pass ^^ j) (q, w)))) < 128))
        \<and> length (tx_packetq (fst (refill_phase (q, w)))) \<le> 128)
   \<and> (\<forall>s :: ('p, 'w) qp \<times> 'w. length (tx_packetq (fst s)) < 128 \<longrightarrow>
         spec_pass (pkt_providers (fst s)) s = (new_packets s, one_pass s)
         \<and> length (tx_packetq (fst (one_pass s))) \<le> 128)
   \<and> poll_tx send (q, w) =
       (case refill_phase (q, w) of
          (q1, w1) \<Rightarrow>
            if tx_packetq q1 = [] then (False, (q1, w1))
            else (case send (tx_packetq q1) w1 of
                    (n, txq, w2) \<Rightarrow>
                      (True, (q1\<lparr>tx_packetq := txq, last_tx_bunch := ucast n,
                                  packets_snt := packets_snt q1 + ucast n\<rparr>, w2))))"
proof -
  have skip: "16 \<le> length (tx_packetq q) \<longrightarrow> refill_phase (q, w) = (q, w)"
    by (simp add: refill_phase_def)
  have fill: "length (tx_packetq q) < 16 \<longrightarrow>
        (\<exists>k. refill_phase (q, w) = (one_pass ^^ Suc k) (q, w)
           \<and> (\<forall>j<k. new_packets ((one_pass ^^ j) (q, w)) \<noteq> 0
                  \<and> length (tx_packetq (fst ((one_pass ^^ Suc j) (q, w)))) < 128)
           \<and> (new_packets ((one_pass ^^ k) (q, w)) = 0
                \<or> length (tx_packetq (fst (refill_phase (q, w)))) = 128)
           \<and> (\<forall>j\<le>k. length (tx_packetq (fst ((one_pass ^^ j) (q, w)))) < 128))
        \<and> length (tx_packetq (fst (refill_phase (q, w)))) \<le> 128"
  proof
    assume low: "length (tx_packetq q) < 16"
    then have ph: "refill_phase (q, w) = refill (q, w)" by (simp add: refill_phase_def)
    from low have "length (tx_packetq (fst (q, w))) < 128" by simp
    from refill_run [OF this]
    obtain k where k: "refill (q, w) = (one_pass ^^ Suc k) (q, w)"
      "\<forall>j<k. refill_goes_on ((one_pass ^^ j) (q, w))"
      "\<not> refill_goes_on ((one_pass ^^ k) (q, w))"
      "\<forall>j\<le>k. length (tx_packetq (fst ((one_pass ^^ j) (q, w)))) < 128"
      "length (tx_packetq (fst (refill (q, w)))) \<le> 128" by blast
    from k(2) have a: "\<forall>j<k. new_packets ((one_pass ^^ j) (q, w)) \<noteq> 0
        \<and> length (tx_packetq (fst ((one_pass ^^ Suc j) (q, w)))) < 128"
      by (simp add: refill_goes_on_def)
    from k(3) k(1) k(5) have b: "new_packets ((one_pass ^^ k) (q, w)) = 0
        \<or> length (tx_packetq (fst (refill (q, w)))) = 128"
      by (auto simp: refill_goes_on_def)
    from k(1) a b k(4) k(5) show "(\<exists>k. refill_phase (q, w) = (one_pass ^^ Suc k) (q, w)
           \<and> (\<forall>j<k. new_packets ((one_pass ^^ j) (q, w)) \<noteq> 0
                  \<and> length (tx_packetq (fst ((one_pass ^^ Suc j) (q, w)))) < 128)
           \<and> (new_packets ((one_pass ^^ k) (q, w)) = 0
                \<or> length (tx_packetq (fst (refill_phase (q, w)))) = 128)
           \<and> (\<forall>j\<le>k. length (tx_packetq (fst ((one_pass ^^ j) (q, w)))) < 128))
        \<and> length (tx_packetq (fst (refill_phase (q, w)))) \<le> 128"
      unfolding ph by blast
  qed
  have pass: "\<forall>s :: ('p, 'w) qp \<times> 'w. length (tx_packetq (fst s)) < 128 \<longrightarrow>
         spec_pass (pkt_providers (fst s)) s = (new_packets s, one_pass s)
         \<and> length (tx_packetq (fst (one_pass s))) \<le> 128"
    using pass_below_cap(2,3) by blast
  from skip fill pass poll_tx_unfold [of send "(q, w)"] show ?thesis by blast
qed

lemma example_qp_fields:
  "example_qp = \<lparr>pkt_providers = [Upper pop_pending, Proxy_drain], proxies = [1],
      proxy_packetq = [100], tx_packetq = [], packets_snt = 0, packets_rcv = 0,
      last_tx_bunch = 0, last_rx_bunch = 0\<rparr>"
  by (simp add: example_qp_def proxy_send_def add_proxy_def register_packet_provider_def qp_new_def)

lemma example_refill:
  "refill (example_qp, ([11, 12], [])) =
     (example_qp\<lparr>proxy_packetq := [], tx_packetq := [11, 100, 12]\<rparr>, ([], []))"
  unfolding example_qp_fields
  apply (subst refill.simps)
  apply (simp add: pop_pending_def proxy_provider_def)
  apply (subst refill.simps)
  apply (simp add: pop_pending_def proxy_provider_def)
  apply (subst refill.simps)
  apply (simp add: pop_pending_def proxy_provider_def)
  done

text \<open>
  Witness for C1: the example queue pair with two packets pending upstream is refilled in
  three passes (two packets, one packet, none) and its batch of three is sent; with 16
  packets already in the batch nothing is refilled.
\<close>

theorem poll_tx_batching_witness:
  "length (tx_packetq example_qp) < 16
   \<and> refill_phase (example_qp, ([11, 12], [])) =
        (example_qp\<lparr>proxy_packetq := [], tx_packetq := [11, 100, 12]\<rparr>, ([], []))
   \<and> length (tx_packetq (fst (refill_phase (example_qp, ([11, 12], []))))) \<le> 128
   \<and> poll_tx (send_default put_on_wire) (example_qp, ([11, 12], [])) =
        (True, (example_qp\<lparr>proxy_packetq := [], tx_packetq := [], last_tx_bunch := 3,
                           packets_snt := 3\<rparr>, ([], [11, 100, 12])))
   \<and> 16 \<le> length (tx_packetq (example_qp\<lparr>tx_packetq := replicate 16 7\<rparr>))
   \<and> refill_phase (example_qp\<lparr>tx_packetq := replicate 16 7\<rparr>, ([11, 12], [])) =
        (example_qp\<lparr>tx_packetq := replicate 16 7\<rparr>, ([11, 12], []))"
proof -
  let ?w = "([11, 12], []) :: nat list \<times> nat list"
  let ?full = "example_qp\<lparr>tx_packetq := replicate 16 7\<rparr>"
  have low: "length (tx_packetq example_qp) < 16" by (simp add: example_qp_fields)
  have high: "16 \<le> length (tx_packetq ?full)" by simp
  note t = poll_tx_batching [where q = example_qp and w = ?w and send = "send_default put_on_wire"]
  note u = poll_tx_batching [where q = ?full and w = ?w and send = "send_default put_on_wire"]
  have ph: "refill_phase (example_qp, ?w) =
      (example_qp\<lparr>proxy_packetq := [], tx_packetq := [11, 100, 12]\<rparr>, ([], []))"
    using low by (simp add: refill_phase_def example_refill)
  from t low have cap: "length (tx_packetq (fst (refill_phase (example_qp, ?w)))) \<le> 128"
    by blast
  from t have "poll_tx (send_default put_on_wire) (example_qp, ?w) =
      (case refill_phase (example_qp, ?w) of
          (q1, w1) \<Rightarrow>
            if tx_packetq q1 = [] then (False, (q1, w1))
            else (case send_default put_on_wire (tx_packetq q1) w1 of
                    (n, txq, w2) \<Rightarrow>
                      (True, (q1\<lparr>tx_packetq := txq, last_tx_bunch := ucast n,
                                  packets_snt := packets_snt q1 + ucast n\<rparr>, w2))))"
    by blast
  then have run: "poll_tx (send_default put_on_wire) (example_qp, ?w) =
      (True, (example_qp\<lparr>proxy_packetq := [], tx_packetq := [], last_tx_bunch := 3,
                         packets_snt := 3\<rparr>, ([], [11, 100, 12])))"
    unfolding ph by (simp add: send_default_def put_on_wire_def example_qp_fields)
  from u high have keep: "refill_phase (?full, ?w) = (?full, ?w)" by blast
  from low ph cap run high keep show ?thesis by blast
qed

section \<open>The packet counters\<close>

lemma call_provider_counters:
  "call_provider pr s = (r, s1) \<Longrightarrow>
     packets_snt (fst s1) = packets_snt (fst s) \<and> packets_rcv (fst s1) = packets_rcv (fst s)"
  by (cases pr; cases s) (auto simp: proxy_provider_def split: list.splits prod.splits)

lemma refill_pass_counters:
  "refill_pass prs work s = (work', s') \<Longrightarrow>
     packets_snt (fst s') = packets_snt (fst s) \<and> packets_rcv (fst s') = packets_rcv (fst s)"
proof (induction prs arbitrary: work s)
  case Nil
  then show ?case by simp
next
  case (Cons pr prs)
  obtain r s1 where c: "call_provider pr s = (r, s1)" by (cases "call_provider pr s")
  note k = call_provider_counters [OF c]
  show ?case
  proof (cases r)
    case None
    with Cons.prems c have "refill_pass prs work s1 = (work', s')" by simp
    from Cons.IH [OF this] k show ?thesis by simp
  next
    case (Some p)
    obtain q1 w1 where s1: "s1 = (q1, w1)" by (cases s1)
    let ?q2 = "q1\<lparr>tx_packetq := tx_packetq q1 @ [p]\<rparr>"
    show ?thesis
    proof (cases "length (tx_packetq ?q2) = 128")
      case True
      with Cons.prems c Some s1 have "s' = (?q2, w1)" by simp
      with k s1 show ?thesis by simp
    next
      case False
      with Cons.prems c Some s1 have "refill_pass prs (work + 1) (?q2, w1) = (work', s')"
        by simp
      from Cons.IH [OF this] k s1 show ?thesis by simp
    qed
  qed
qed

lemma refill_counters:
  "packets_snt (fst (refill s)) = packets_snt (fst s) \<and>
   packets_rcv (fst (refill s)) = packets_rcv (fst s)"
proof (induction s rule: refill.induct)
  case (1 s)
  obtain work s1 where p: "refill_pass (pkt_providers (fst s)) 0 s = (work, s1)"
    by (cases "refill_pass (pkt_providers (fst s)) 0 s")
  note k = refill_pass_counters [OF p]
  show ?case
  proof (cases "work \<noteq> 0 \<and> length (tx_packetq (fst s1)) < 128")
    case True
    from "1.IH" [OF p [symmetric] True] k True p show ?thesis
      by (subst (1 2) refill.simps) simp
  next
    case False
    with k p show ?thesis by (subst (1 2) refill.simps) auto
  qed
qed

lemma refill_phase_counters:
  "packets_snt (fst (refill_phase s)) = packets_snt (fst s) \<and>
   packets_rcv (fst (refill_phase s)) = packets_rcv (fst s)"
  by (simp add: refill_phase_def refill_counters)

lemma refill_no_providers: "pkt_providers (fst s) = [] \<Longrightarrow> refill s = s"
  by (subst refill.simps) simp

lemma poll_tx_counters:
  "packets_rcv (fst (snd (poll_tx send s))) = packets_rcv (fst s) \<and>
   packets_snt (fst (snd (poll_tx send s))) = packets_snt (fst s) + ucast (sent_count send s)"
proof -
  obtain q1 w1 where r: "refill_phase s = (q1, w1)" by (cases "refill_phase s")
  from refill_phase_counters [of s] r
  have k: "packets_snt q1 = packets_snt (fst s)" "packets_rcv q1 = packets_rcv (fst s)"
    by simp_all
  show ?thesis
    by (simp add: poll_tx_def send_phase_def sent_count_def r k split: prod.splits)
qed

text \<open>
  Claim C10, amended. The counters are 64-bit and wrap. \<^verbatim>\<open>update_rx_count\<close> adds its
  argument to the received counter modulo \<open>2 ^ 64\<close> and leaves the sent counter;
  \<^verbatim>\<open>poll_tx\<close> adds the count reported by \<^verbatim>\<open>send\<close> (zero when nothing was sent) to
  the sent counter modulo \<open>2 ^ 64\<close> and leaves the received counter; \<^verbatim>\<open>add_proxy\<close>,
  \<^verbatim>\<open>proxy_send\<close> and \<^verbatim>\<open>register_packet_provider\<close> leave both. So a counter does
  not decrease across an operation whenever the sum stays below \<open>2 ^ 64\<close>.
\<close>

theorem counters_add_modulo:
  "packets_rcv (update_rx_count q c) = packets_rcv q + c
   \<and> packets_snt (update_rx_count q c) = packets_snt q
   \<and> (unat (packets_rcv q) + unat c < 2 ^ 64 \<longrightarrow> packets_rcv q \<le> packets_rcv (update_rx_count q c))
   \<and> packets_rcv (fst (snd (poll_tx send (q, w)))) = packets_rcv q
   \<and> packets_snt (fst (snd (poll_tx send (q, w)))) = packets_snt q + ucast (sent_count send (q, w))
   \<and> (unat (packets_snt q) + unat (sent_count send (q, w)) < 2 ^ 64 \<longrightarrow>
        packets_snt q \<le> packets_snt (fst (snd (poll_tx send (q, w)))))
   \<and> packets_rcv (add_proxy q cpu) = packets_rcv q \<and> packets_snt (add_proxy q cpu) = packets_snt q
   \<and> packets_rcv (proxy_send q p) = packets_rcv q \<and> packets_snt (proxy_send q p) = packets_snt q
   \<and> packets_rcv (register_packet_provider q f) = packets_rcv q
   \<and> packets_snt (register_packet_provider q f) = packets_snt q"
proof -
  have rx: "unat (packets_rcv q) + unat c < 2 ^ 64 \<Longrightarrow> packets_rcv q \<le> packets_rcv q + c"
    using no_olen_add_nat [of "packets_rcv q" c] by simp
  have "unat (sent_count send (q, w)) < 2 ^ 32"
    using unsigned_less [of "sent_count send (q, w)", where ?'a = nat] by simp
  then have "unat (sent_count send (q, w)) < 2 ^ 64"
    by (rule less_trans) simp
  then have u: "unat (ucast (sent_count send (q, w)) :: u64) = unat (sent_count send (q, w))"
    by (simp add: unsigned_ucast_eq take_bit_nat_eq_self)
  have tx: "unat (packets_snt q) + unat (sent_count send (q, w)) < 2 ^ 64 \<Longrightarrow>
      packets_snt q \<le> packets_snt q + ucast (sent_count send (q, w))"
    using no_olen_add_nat [of "packets_snt q" "ucast (sent_count send (q, w))"] u by simp
  from poll_tx_counters [of send "(q, w)"] rx tx show ?thesis
    by (simp add: update_rx_count_def add_proxy_def proxy_send_def register_packet_provider_def Let_def)
qed

text \<open>
  Claim C10 as stated fails: on a new queue pair, \<^verbatim>\<open>update_rx_count(2^64 - 1)\<close> and then
  \<^verbatim>\<open>update_rx_count(2)\<close> take the received counter from \<open>2 ^ 64 - 1\<close> down to 1.
\<close>

theorem rx_counter_wraps_counterexample:
  "\<not> packets_rcv (update_rx_count (qp_new :: (nat, nat) qp) 0xFFFFFFFFFFFFFFFF)
       \<le> packets_rcv (update_rx_count (update_rx_count (qp_new :: (nat, nat) qp) 0xFFFFFFFFFFFFFFFF) 2)"
  by (simp add: update_rx_count_def qp_new_def)

text \<open>Witness for C10 as amended: counters 10 and 20, five received, a batch of three sent.\<close>

theorem counters_add_modulo_witness:
  "unat (packets_rcv ((qp_new :: (nat, nat) qp)\<lparr>tx_packetq := [1, 2, 3], packets_snt := 10, packets_rcv := 20\<rparr>)) + unat (5 :: u64) < 2 ^ 64
   \<and> packets_rcv ((qp_new :: (nat, nat) qp)\<lparr>tx_packetq := [1, 2, 3], packets_snt := 10, packets_rcv := 20\<rparr>)
        \<le> packets_rcv (update_rx_count ((qp_new :: (nat, nat) qp)\<lparr>tx_packetq := [1, 2, 3], packets_snt := 10, packets_rcv := 20\<rparr>) 5)
   \<and> packets_rcv (update_rx_count ((qp_new :: (nat, nat) qp)\<lparr>tx_packetq := [1, 2, 3], packets_snt := 10, packets_rcv := 20\<rparr>) 5) = 25
   \<and> sent_count (send_default (\<lambda>p w. w + p))
        ((qp_new :: (nat, nat) qp)\<lparr>tx_packetq := [1, 2, 3], packets_snt := 10, packets_rcv := 20\<rparr>, 0) = 3
   \<and> packets_snt ((qp_new :: (nat, nat) qp)\<lparr>tx_packetq := [1, 2, 3], packets_snt := 10, packets_rcv := 20\<rparr>)
        \<le> packets_snt (fst (snd (poll_tx (send_default (\<lambda>p w. w + p))
              ((qp_new :: (nat, nat) qp)\<lparr>tx_packetq := [1, 2, 3], packets_snt := 10, packets_rcv := 20\<rparr>, 0))))
   \<and> packets_snt (fst (snd (poll_tx (send_default (\<lambda>p w. w + p))
              ((qp_new :: (nat, nat) qp)\<lparr>tx_packetq := [1, 2, 3], packets_snt := 10, packets_rcv := 20\<rparr>, 0)))) = 13"
proof -
  let ?q = "(qp_new :: (nat, nat) qp)\<lparr>tx_packetq := [1, 2, 3], packets_snt := 10, packets_rcv := 20\<rparr>"
  let ?send = "send_default (\<lambda>p w. w + p) :: (nat, nat) batch_send"
  have f: "packets_rcv ?q = 20" "packets_snt ?q = 10" by simp_all
  have ph: "refill_phase (?q, 0) = (?q, 0)"
    by (simp add: refill_phase_def refill_no_providers qp_new_def)
  have sc: "sent_count ?send (?q, 0) = 3"
    unfolding sent_count_def ph by (simp add: send_default_def)
  have h1: "unat (packets_rcv ?q) + unat (5 :: u64) < 2 ^ 64" by simp
  have h2: "unat (packets_snt ?q) + unat (sent_count ?send (?q, 0)) < 2 ^ 64"
    unfolding sc by simp
  note t = counters_add_modulo [of ?q 5 ?send 0]
  from t h1 have r1: "packets_rcv ?q \<le> packets_rcv (update_rx_count ?q 5)" by blast
  from t have r2: "packets_rcv (update_rx_count ?q 5) = 25" unfolding f by simp
  from t h2 have r3: "packets_snt ?q \<le> packets_snt (fst (snd (poll_tx ?send (?q, 0))))" by blast
  from t have r4: "packets_snt (fst (snd (poll_tx ?send (?q, 0)))) = 13" unfolding sc f by simp
  from h1 r1 r2 sc r3 r4 show ?thesis by blast
qed

end
